theory Spec2Isabelle
  imports Main "HOL-Library.Word"
begin

unbundle bit_operations_syntax

section \<open>Data model\<close>

text \<open>
  \<^verbatim>\<open>type UTF32 uint32\<close>: a code point is a 32-bit unsigned machine integer. A Go
  \<^verbatim>\<open>string\<close> and a \<^verbatim>\<open>[]byte\<close> are sequences of 8-bit values. Go's \<^verbatim>\<open>int\<close> is
  modelled by \<^typ>\<open>int\<close> in the encoder (all values stay below \<open>2 ^ 32\<close>) and by
  \<^typ>\<open>nat\<close> for the decoder's cursor, which starts at 0 and only grows. The
  conversion \<^verbatim>\<open>int(ch)\<close> is \<open>uint ch\<close> and \<^verbatim>\<open>byte(x)\<close> is \<open>word_of_int x\<close>, which keeps
  the low 8 bits; the encoder converts only after \<open>lookupBytesToWrite\<close> has accepted
  \<open>ch\<close>, so \<open>ch\<close> is at most \<open>0x10FFFF\<close> there and fits an \<^verbatim>\<open>int\<close> of 32 or 64 bits.
\<close>

type_synonym UTF32 = "32 word"
type_synonym byte = "8 word"

text \<open>The single error value, \<^verbatim>\<open>ErrInvalidSource = errors.New("illegal source")\<close>.\<close>

datatype error = ErrInvalidSource

text \<open>
  Both converters return a pair of a result and an error (\<open>None\<close> is Go's \<^verbatim>\<open>nil\<close>
  error). A Go run can also stop with an index-out-of-range panic; the outer
  \<open>option\<close> of the models is \<open>None\<close> exactly there. A \<^verbatim>\<open>nil\<close> slice is the empty
  list.
\<close>

section \<open>Tables and constants\<close>

text \<open>
  \<^verbatim>\<open>var trailingBytesForUTF8 = [256]byte{...}\<close>: the 256 entries in the order of the
  source, 16 to a line (a line of the source is two lines here).
\<close>

definition trailingBytesForUTF8 :: "byte list" where
  "trailingBytesForUTF8 = concat
     [
      [0, 0, 0, 0, 0, 0, 0, 0, 0, 0, 0, 0, 0, 0, 0, 0],
      [0, 0, 0, 0, 0, 0, 0, 0, 0, 0, 0, 0, 0, 0, 0, 0],
      [0, 0, 0, 0, 0, 0, 0, 0, 0, 0, 0, 0, 0, 0, 0, 0],
      [0, 0, 0, 0, 0, 0, 0, 0, 0, 0, 0, 0, 0, 0, 0, 0],
      [0, 0, 0, 0, 0, 0, 0, 0, 0, 0, 0, 0, 0, 0, 0, 0],
      [0, 0, 0, 0, 0, 0, 0, 0, 0, 0, 0, 0, 0, 0, 0, 0],
      [0, 0, 0, 0, 0, 0, 0, 0, 0, 0, 0, 0, 0, 0, 0, 0],
      [0, 0, 0, 0, 0, 0, 0, 0, 0, 0, 0, 0, 0, 0, 0, 0],
      [0, 0, 0, 0, 0, 0, 0, 0, 0, 0, 0, 0, 0, 0, 0, 0],
      [0, 0, 0, 0, 0, 0, 0, 0, 0, 0, 0, 0, 0, 0, 0, 0],
      [0, 0, 0, 0, 0, 0, 0, 0, 0, 0, 0, 0, 0, 0, 0, 0],
      [0, 0, 0, 0, 0, 0, 0, 0, 0, 0, 0, 0, 0, 0, 0, 0],
      [1, 1, 1, 1, 1, 1, 1, 1, 1, 1, 1, 1, 1, 1, 1, 1],
      [1, 1, 1, 1, 1, 1, 1, 1, 1, 1, 1, 1, 1, 1, 1, 1],
      [2, 2, 2, 2, 2, 2, 2, 2, 2, 2, 2, 2, 2, 2, 2, 2],
      [3, 3, 3, 3, 3, 3, 3, 3, 4, 4, 4, 4, 5, 5, 5, 5]
     ]"

definition offsetsFromUTF8 :: "UTF32 list" where
  "offsetsFromUTF8 =
    [0x00000000, 0x00003080, 0x000E2080, 0x03C82080, 0xFA082080, 0x82082080]"

definition firstByteMark :: "byte list" where
  "firstByteMark = [0x00, 0x00, 0xC0, 0xE0, 0xF0, 0xF8, 0xFC]"

definition UniSurHighStart :: UTF32 where
  "UniSurHighStart = 0xd800"

definition UniSurLowEnd :: UTF32 where
  "UniSurLowEnd = 0xdfff"

definition UniMaxLegalUTF32 :: UTF32 where
  "UniMaxLegalUTF32 = 0x0010ffff"

definition byteMask :: int where
  "byteMask = 0xbf"

definition byteMark :: int where
  "byteMark = 0x80"

section \<open>Encoder\<close>

definition lookupBytesToWrite :: "UTF32 \<Rightarrow> int \<times> error option" where
  "lookupBytesToWrite ch =
    (if ch < 0x80 then (1, None)
     else if ch < 0x800 then (2, None)
     else if ch < 0x10000 then (3, None)
     else if ch \<le> UniMaxLegalUTF32 then (4, None)
     else (-1, Some ErrInvalidSource))"

text \<open>\<^verbatim>\<open>ret[i] = v\<close>: Go panics when \<open>i\<close> is outside the slice.\<close>

definition store :: "byte list \<Rightarrow> int \<Rightarrow> byte \<Rightarrow> byte list option" where
  "store ret i v = (if 0 \<le> i \<and> i < int (length ret) then Some (ret[nat i := v]) else None)"

text \<open>\<^verbatim>\<open>ret[i] = byte((int(ch) | byteMark) & byteMask)\<close>\<close>

definition store_cont :: "byte list \<Rightarrow> int \<Rightarrow> UTF32 \<Rightarrow> byte list option" where
  "store_cont ret i ch = store ret i (word_of_int ((uint ch OR byteMark) AND byteMask))"

text \<open>
  The \<^verbatim>\<open>switch bytesToWrite\<close> with its \<^verbatim>\<open>fallthrough\<close>s: each case does its store,
  shifts \<open>ch\<close> right by 6 and continues with the next case.
  \<^verbatim>\<open>firstByteMark[bytesToWrite]\<close> panics outside the 7 entries.
\<close>

definition case1 :: "byte list \<Rightarrow> int \<Rightarrow> UTF32 \<Rightarrow> int \<Rightarrow> byte list option" where
  "case1 ret idx ch bytesToWrite =
    (if 0 \<le> bytesToWrite \<and> bytesToWrite < int (length firstByteMark)
     then store ret idx (word_of_int (uint ch OR uint (firstByteMark ! nat bytesToWrite)))
     else None)"

definition case2 :: "byte list \<Rightarrow> int \<Rightarrow> UTF32 \<Rightarrow> int \<Rightarrow> byte list option" where
  "case2 ret idx ch bytesToWrite =
    (case store_cont ret (idx + 1) ch of
       None \<Rightarrow> None
     | Some ret' \<Rightarrow> case1 ret' idx (drop_bit 6 ch) bytesToWrite)"

definition case3 :: "byte list \<Rightarrow> int \<Rightarrow> UTF32 \<Rightarrow> int \<Rightarrow> byte list option" where
  "case3 ret idx ch bytesToWrite =
    (case store_cont ret (idx + 2) ch of
       None \<Rightarrow> None
     | Some ret' \<Rightarrow> case2 ret' idx (drop_bit 6 ch) bytesToWrite)"

definition case4 :: "byte list \<Rightarrow> int \<Rightarrow> UTF32 \<Rightarrow> int \<Rightarrow> byte list option" where
  "case4 ret idx ch bytesToWrite =
    (case store_cont ret (idx + 3) ch of
       None \<Rightarrow> None
     | Some ret' \<Rightarrow> case3 ret' idx (drop_bit 6 ch) bytesToWrite)"

definition write_bytes :: "byte list \<Rightarrow> int \<Rightarrow> UTF32 \<Rightarrow> int \<Rightarrow> byte list option" where
  "write_bytes ret idx ch bytesToWrite =
    (if bytesToWrite = 4 then case4 ret idx ch bytesToWrite
     else if bytesToWrite = 3 then case3 ret idx ch bytesToWrite
     else if bytesToWrite = 2 then case2 ret idx ch bytesToWrite
     else if bytesToWrite = 1 then case1 ret idx ch bytesToWrite
     else Some ret)"

text \<open>
  The body of \<^verbatim>\<open>for _, ch := range src\<close>, with the loop state \<open>ret\<close>, \<open>idx\<close>.
  The inner \<^verbatim>\<open>for i := 0; i < bytesToWrite; i++ { ret = append(ret, 0) }\<close> appends
  \<open>bytesToWrite\<close> zero bytes.
\<close>

fun encode_loop :: "UTF32 list \<Rightarrow> byte list \<Rightarrow> int \<Rightarrow> (byte list \<times> error option) option" where
  "encode_loop [] ret idx = Some (ret, None)"
| "encode_loop (ch # src) ret idx =
    (if ch \<ge> UniSurHighStart \<and> ch \<le> UniSurLowEnd then Some ([], Some ErrInvalidSource)
     else case lookupBytesToWrite ch of
       (bytesToWrite, Some err) \<Rightarrow> Some ([], Some err)
     | (bytesToWrite, None) \<Rightarrow>
         (case write_bytes (ret @ replicate (nat bytesToWrite) 0) idx ch bytesToWrite of
            None \<Rightarrow> None
          | Some ret' \<Rightarrow> encode_loop src ret' (idx + bytesToWrite)))"

definition ConvertUTF32toUTF8 :: "UTF32 list \<Rightarrow> (byte list \<times> error option) option" where
  "ConvertUTF32toUTF8 src = encode_loop src [] 0"

section \<open>Decoder\<close>

text \<open>
  The inner loop \<^verbatim>\<open>for j := 0; j < int(extraBytesToRead); j++ { ch += UTF32(src[i]); i++; ch <<= 6 }\<close>,
  by the number of iterations left; it returns the cursor and the accumulator.
  \<^verbatim>\<open>src[i]\<close> panics outside the string.
\<close>

fun read_trailing :: "byte list \<Rightarrow> nat \<Rightarrow> nat \<Rightarrow> UTF32 \<Rightarrow> (nat \<times> UTF32) option" where
  "read_trailing src 0 i ch = Some (i, ch)"
| "read_trailing src (Suc k) i ch =
    (if i < length src then read_trailing src k (i + 1) (push_bit 6 (ch + ucast (src ! i)))
     else None)"

text \<open>
  One character at cursor \<open>i\<close> with \<open>extraBytesToRead\<close> trailing bytes: the inner loop,
  then \<^verbatim>\<open>ch += UTF32(src[i]) - offsetsFromUTF8[extraBytesToRead]\<close>. It returns the
  cursor (on the character's last byte) and the accumulated value.
\<close>

definition read_char :: "byte list \<Rightarrow> nat \<Rightarrow> byte \<Rightarrow> (nat \<times> UTF32) option" where
  "read_char src i extraBytesToRead =
    (case read_trailing src (unat extraBytesToRead) i 0 of
       None \<Rightarrow> None
     | Some (i', ch) \<Rightarrow>
         if i' < length src \<and> unat extraBytesToRead < length offsetsFromUTF8
         then Some (i', ch + (ucast (src ! i') - offsetsFromUTF8 ! unat extraBytesToRead))
         else None)"

lemma read_trailing_cursor: "read_trailing src k i ch = Some (i', ch') \<Longrightarrow> i' = i + k"
proof (induction k arbitrary: i ch)
  case 0
  then show ?case by simp
next
  case (Suc k)
  from Suc.prems have "i < length src"
    by (simp split: if_splits)
  with Suc.prems have "read_trailing src k (i + 1) (push_bit 6 (ch + ucast (src ! i))) = Some (i', ch')"
    by simp
  from Suc.IH [OF this] show ?case by simp
qed

lemma read_char_cursor: "read_char src i e = Some (i', ch) \<Longrightarrow> i' = i + unat e"
  by (auto simp: read_char_def split: option.splits if_splits dest: read_trailing_cursor)

text \<open>
  \<^verbatim>\<open>for i := 0; i < len(src); i++\<close> with the loop state \<open>i\<close>, \<open>ret\<close>. The index into
  \<open>trailingBytesForUTF8\<close> is a byte and the table has 256 entries.
\<close>

function decode_loop :: "byte list \<Rightarrow> nat \<Rightarrow> UTF32 list \<Rightarrow> (UTF32 list \<times> error option) option" where
  "decode_loop src i ret =
    (if i < length src then
       (let extraBytesToRead = trailingBytesForUTF8 ! unat (src ! i) in
        if i + unat extraBytesToRead \<ge> length src then Some ([], Some ErrInvalidSource)
        else case read_char src i extraBytesToRead of
          None \<Rightarrow> None
        | Some (i', ch) \<Rightarrow>
            if ch > UniMaxLegalUTF32 \<or> (ch \<ge> UniSurHighStart \<and> ch \<le> UniSurLowEnd)
            then Some ([], Some ErrInvalidSource)
            else decode_loop src (i' + 1) (ret @ [ch]))
     else Some (ret, None))"
  by pat_completeness auto
termination
  by (relation "measure (\<lambda>(src, i, ret). length src - i)")
     (auto dest!: read_char_cursor)

declare decode_loop.simps [simp del]

definition ConvertUTF8toUTF32 :: "byte list \<Rightarrow> (UTF32 list \<times> error option) option" where
  "ConvertUTF8toUTF32 src = decode_loop src 0 []"

section \<open>Vocabulary of the specification\<close>

text \<open>
  A legal code point: below \<open>0x110000\<close> and outside the surrogate range
  \<open>[0xD800, 0xDFFF]\<close>.
\<close>

definition surrogate :: "UTF32 \<Rightarrow> bool" where
  "surrogate ch \<longleftrightarrow> 0xD800 \<le> ch \<and> ch \<le> 0xDFFF"

definition legal :: "UTF32 \<Rightarrow> bool" where
  "legal ch \<longleftrightarrow> ch < 0x110000 \<and> \<not> surrogate ch"

text \<open>The byte length of a code point by range, in the words of the specification.\<close>

definition utf8_len :: "UTF32 \<Rightarrow> nat" where
  "utf8_len ch =
    (if ch < 0x80 then 1 else if ch < 0x800 then 2 else if ch < 0x10000 then 3
     else if ch \<le> 0x10FFFF then 4 else 0)"

text \<open>The decoder's test on an accumulated value, \<^verbatim>\<open>ch > UniMaxLegalUTF32 || (ch >= UniSurHighStart && ch <= UniSurLowEnd)\<close>.\<close>

definition rejected :: "UTF32 \<Rightarrow> bool" where
  "rejected ch \<longleftrightarrow> ch > UniMaxLegalUTF32 \<or> (ch \<ge> UniSurHighStart \<and> ch \<le> UniSurLowEnd)"

text \<open>
  The character boundaries of a byte string as the table cuts it: the first character
  starts at 0, and a character that starts at \<open>i\<close> and has all its trailing bytes is
  followed by one at \<open>i + extraBytesToRead + 1\<close>. The byte at such a position is a
  lead byte.
\<close>

inductive lead_at :: "byte list \<Rightarrow> nat \<Rightarrow> bool" for src :: "byte list" where
  first: "lead_at src 0"
| step: "lead_at src i \<Longrightarrow> i < length src \<Longrightarrow>
     i + unat (trailingBytesForUTF8 ! unat (src ! i)) < length src \<Longrightarrow>
     lead_at src (i + unat (trailingBytesForUTF8 ! unat (src ! i)) + 1)"

code_pred lead_at .

text \<open>
  The bytes the encoder's \<^verbatim>\<open>switch\<close> stores for one code point, first byte first: the
  continuation byte \<^verbatim>\<open>byte((int(ch) | byteMark) & byteMask)\<close> and the first byte
  \<^verbatim>\<open>byte(int(ch) | int(firstByteMark[bytesToWrite]))\<close> of the shifted values.
\<close>

definition cont_byte :: "UTF32 \<Rightarrow> byte" where
  "cont_byte ch = word_of_int ((uint ch OR byteMark) AND byteMask)"

definition lead_byte :: "UTF32 \<Rightarrow> int \<Rightarrow> byte" where
  "lead_byte ch n = word_of_int (uint ch OR uint (firstByteMark ! nat n))"

definition char_bytes :: "UTF32 \<Rightarrow> byte list" where
  "char_bytes ch =
    (if ch < 0x80 then [lead_byte ch 1]
     else if ch < 0x800 then [lead_byte (drop_bit 6 ch) 2, cont_byte ch]
     else if ch < 0x10000 then
       [lead_byte (drop_bit 6 (drop_bit 6 ch)) 3, cont_byte (drop_bit 6 ch), cont_byte ch]
     else [lead_byte (drop_bit 6 (drop_bit 6 (drop_bit 6 ch))) 4,
           cont_byte (drop_bit 6 (drop_bit 6 ch)), cont_byte (drop_bit 6 ch), cont_byte ch])"

section \<open>Bit arithmetic of the stored bytes\<close>

text \<open>
  The unsigned value of each stored byte in terms of \<open>uint ch\<close>: a continuation byte is
  \<open>128 + uint ch mod 64\<close>, and a first byte is its mark plus the shifted value, since
  the mark and the value share no bit.
\<close>

lemma or_and_gen: "n \<le> m \<Longrightarrow> ((k::int) OR 2 ^ m) AND (mask n OR 2 ^ m) = 2 ^ m + take_bit n k"
proof -
  assume nm: "n \<le> m"
  have "(2 ^ m + take_bit n k :: int) = 2 ^ m OR take_bit n k"
    by (rule disjunctive_add) (use nm in \<open>auto simp: bit_simps\<close>)
  moreover have "(k OR 2 ^ m) AND (mask n OR 2 ^ m) = 2 ^ m OR take_bit n k"
    by (rule bit_eqI) (use nm in \<open>auto simp: bit_simps\<close>)
  ultimately show ?thesis by simp
qed

lemma or_mark_and_mask: "((k::int) OR 128) AND 191 = 128 + k mod 64"
  using or_and_gen [of 6 7 k] by (simp add: mask_eq_exp_minus_1 take_bit_eq_mod)

lemma or_push_gen:
  assumes "0 \<le> k" "k < 2 ^ m"
  shows "(k::int) OR push_bit m j = k + push_bit m j"
proof -
  have "take_bit m k = k" using assms by (simp add: take_bit_int_eq_self)
  then have k: "\<And>i. bit k i \<Longrightarrow> i < m"
    by (metis bit_take_bit_iff)
  have "k + push_bit m j = k OR push_bit m j"
    by (rule disjunctive_add) (auto simp: bit_simps dest: k)
  then show ?thesis by simp
qed

lemma or_C0: "0 \<le> k \<Longrightarrow> k < 32 \<Longrightarrow> (k::int) OR 192 = k + 192"
  using or_push_gen [of k 5 6] by (simp add: push_bit_eq_mult)

lemma or_E0: "0 \<le> k \<Longrightarrow> k < 16 \<Longrightarrow> (k::int) OR 224 = k + 224"
  using or_push_gen [of k 4 14] by (simp add: push_bit_eq_mult)

lemma or_F0: "0 \<le> k \<Longrightarrow> k < 8 \<Longrightarrow> (k::int) OR 240 = k + 240"
  using or_push_gen [of k 3 30] by (simp add: push_bit_eq_mult)

lemma uint_byte_of_int: "0 \<le> k \<Longrightarrow> k < 256 \<Longrightarrow> uint (word_of_int k :: 8 word) = k"
  by (simp only: uint_word_of_int_eq) (simp add: take_bit_int_eq_self)

lemma uint_cont: "uint (word_of_int ((uint (ch::32 word) OR byteMark) AND byteMask) :: 8 word) = 128 + uint ch mod 64"
proof -
  have "(uint ch OR byteMark) AND byteMask = 128 + uint ch mod 64"
    by (simp add: byteMark_def byteMask_def or_mark_and_mask)
  moreover have "0 \<le> 128 + uint ch mod 64" "128 + uint ch mod 64 < 256" by simp_all
  ultimately show ?thesis
    by (simp only: uint_byte_of_int)
qed

lemma uint_cont_byte: "uint (cont_byte ch) = 128 + uint ch mod 64"
  unfolding cont_byte_def by (rule uint_cont)

lemma uint_drop6: "uint (drop_bit 6 (ch::32 word)) = uint ch div 64"
  by (simp add: drop_bit_eq_div uint_div_distrib)

lemma div64_nonneg: "0 \<le> uint (ch::32 word) div 64" "0 \<le> uint ch div 64 div 64"
  "0 \<le> uint ch div 64 div 64 div 64"
  by (simp_all add: pos_imp_zdiv_nonneg_iff)

lemma uint_lead_gen:
  assumes "uint w = k" and "uint (firstByteMark ! nat n) = m" and "k OR m = k + m"
    and "0 \<le> k" and "0 \<le> m" and "k + m < 256"
  shows "uint (lead_byte w n) = k + m"
proof -
  have "0 \<le> k + m" using assms(4,5) by simp
  then have "uint (word_of_int (k + m) :: byte) = k + m"
    using assms(6) by (rule uint_byte_of_int)
  then show ?thesis
    unfolding lead_byte_def assms(1,2,3) .
qed

lemma uint_lead1:
  assumes "ch < 0x80"
  shows "uint (lead_byte ch 1) = uint ch"
proof -
  have "uint ch < 128" using assms by (simp add: word_less_alt)
  then have b: "0 \<le> uint ch" "uint ch < 256" by simp_all
  have "uint ch OR uint (firstByteMark ! nat 1) = uint ch"
    by (simp add: firstByteMark_def)
  then show ?thesis
    unfolding lead_byte_def using b by (simp only: uint_byte_of_int)
qed

lemma uint_lead2: 
  assumes "ch < 0x800"
  shows "uint (lead_byte (drop_bit 6 ch) 2) = 192 + uint ch div 64"
proof -
  have "uint ch < 2048" using assms by (simp add: word_less_alt)
  then have b: "0 \<le> uint ch div 64" "uint ch div 64 < 32" by (simp_all add: div64_nonneg)
  have "uint (lead_byte (drop_bit 6 ch) 2) = uint ch div 64 + 192"
  proof (rule uint_lead_gen)
    show "uint (drop_bit 6 ch) = uint ch div 64" by (rule uint_drop6)
    show "uint (firstByteMark ! nat 2) = 192" by (simp add: firstByteMark_def)
    show "uint ch div 64 OR 192 = uint ch div 64 + 192" using b by (rule or_C0)
  qed (use b in simp_all)
  then show ?thesis by simp
qed

lemma uint_lead3: 
  assumes "ch < 0x10000"
  shows "uint (lead_byte (drop_bit 6 (drop_bit 6 ch)) 3) = 224 + uint ch div 64 div 64"
proof -
  have "uint ch < 65536" using assms by (simp add: word_less_alt)
  then have b: "0 \<le> uint ch div 64 div 64" "uint ch div 64 div 64 < 16"
    by (simp_all add: div64_nonneg)
  have "uint (lead_byte (drop_bit 6 (drop_bit 6 ch)) 3) = uint ch div 64 div 64 + 224"
  proof (rule uint_lead_gen)
    show "uint (drop_bit 6 (drop_bit 6 ch)) = uint ch div 64 div 64" by (simp only: uint_drop6)
    show "uint (firstByteMark ! nat 3) = 224" by (simp add: firstByteMark_def)
    show "uint ch div 64 div 64 OR 224 = uint ch div 64 div 64 + 224" using b by (rule or_E0)
  qed (use b in simp_all)
  then show ?thesis by simp
qed

lemma uint_lead4: 
  assumes "ch < 0x110000"
  shows "uint (lead_byte (drop_bit 6 (drop_bit 6 (drop_bit 6 ch))) 4) = 240 + uint ch div 64 div 64 div 64"
proof -
  have "uint ch < 1114112" using assms by (simp add: word_less_alt)
  then have b: "0 \<le> uint ch div 64 div 64 div 64" "uint ch div 64 div 64 div 64 < 8"
    by (simp_all add: div64_nonneg)
  have "uint (lead_byte (drop_bit 6 (drop_bit 6 (drop_bit 6 ch))) 4) = uint ch div 64 div 64 div 64 + 240"
  proof (rule uint_lead_gen)
    show "uint (drop_bit 6 (drop_bit 6 (drop_bit 6 ch))) = uint ch div 64 div 64 div 64"
      by (simp only: uint_drop6)
    show "uint (firstByteMark ! nat 4) = 240" by (simp add: firstByteMark_def)
    show "uint ch div 64 div 64 div 64 OR 240 = uint ch div 64 div 64 div 64 + 240"
      using b by (rule or_F0)
  qed (use b in simp_all)
  then show ?thesis by simp
qed

section \<open>The decoder's arithmetic undoes the encoder's\<close>

text \<open>
  On bytes with these values, shifting by 6, adding and subtracting the entry of
  \<open>offsetsFromUTF8\<close> gives the code point back, in 32-bit arithmetic.
\<close>

lemma arith2: "0 \<le> (u::int) \<Longrightarrow> (192 + u div 64) * 64 + (128 + u mod 64 - 0x3080) = u"
  by presburger

lemma arith3: "0 \<le> (u::int) \<Longrightarrow>
   ((224 + u div 64 div 64) * 64 + (128 + u div 64 mod 64)) * 64 + (128 + u mod 64 - 0xE2080) = u"
  by presburger

lemma arith4: "0 \<le> (u::int) \<Longrightarrow> 
   (((240 + u div 64 div 64 div 64) * 64 + (128 + u div 64 div 64 mod 64)) * 64 + (128 + u div 64 mod 64)) * 64 + (128 + u mod 64 - 0x03C82080) = u"
  by presburger

lemma word1:
  fixes c :: "32 word" and b1 :: "8 word"
  assumes "uint b1 = uint c"
  shows "ucast b1 = c"
  unfolding ucast_eq assms by simp

lemma word2:
  fixes c :: "32 word" and b1 b2 :: "8 word"
  assumes "uint b1 = 192 + uint c div 64" "uint b2 = 128 + uint c mod 64"
  shows "push_bit 6 (0 + ucast b1) + (ucast b2 - 0x00003080) = c"
proof -
  define A B where "A = uint b1" and "B = uint b2"
  have "push_bit 6 (0 + ucast b1) + (ucast b2 - 0x00003080)
    = (word_of_int (A * 64 + (B - 0x3080)) :: 32 word)"
    unfolding ucast_eq A_def [symmetric] B_def [symmetric]
    by (simp add: push_bit_eq_mult)
  also have "A * 64 + (B - 0x3080) = uint c"
    unfolding A_def B_def assms by (rule arith2) simp
  finally show ?thesis by simp
qed

lemma word3:
  fixes c :: "32 word" and b1 b2 b3 :: "8 word"
  assumes "uint b1 = 224 + uint c div 64 div 64"
    "uint b2 = 128 + uint c div 64 mod 64"
    "uint b3 = 128 + uint c mod 64"
  shows "push_bit 6 (push_bit 6 (0 + ucast b1) + ucast b2) + (ucast b3 - 0x000E2080) = c"
proof -
  define A B C where "A = uint b1" and "B = uint b2" and "C = uint b3"
  have "push_bit 6 (push_bit 6 (0 + ucast b1) + ucast b2) + (ucast b3 - 0x000E2080)
    = (word_of_int ((A * 64 + B) * 64 + (C - 0xE2080)) :: 32 word)"
    unfolding ucast_eq A_def [symmetric] B_def [symmetric] C_def [symmetric]
    by (simp add: push_bit_eq_mult)
  also have "(A * 64 + B) * 64 + (C - 0xE2080) = uint c"
    unfolding A_def B_def C_def assms by (rule arith3) simp
  finally show ?thesis by simp
qed

lemma word4:
  fixes c :: "32 word" and b1 b2 b3 b4 :: "8 word"
  assumes "uint b1 = 240 + uint c div 64 div 64 div 64"
     "uint b2 = 128 + uint c div 64 div 64 mod 64"
    "uint b3 = 128 + uint c div 64 mod 64"
    "uint b4 = 128 + uint c mod 64"
  shows "push_bit 6 (push_bit 6 (push_bit 6 (0 + ucast b1) + ucast b2) + ucast b3) + (ucast b4 - 0x03C82080) = c"
proof -
  define A B C D where "A = uint b1" and "B = uint b2" and "C = uint b3" and "D = uint b4"
  have "push_bit 6 (push_bit 6 (push_bit 6 (0 + ucast b1) + ucast b2) + ucast b3) + (ucast b4 - 0x03C82080)
    = (word_of_int (((A * 64 + B) * 64 + C) * 64 + (D - 0x03C82080)) :: 32 word)"
    unfolding ucast_eq A_def [symmetric] B_def [symmetric] C_def [symmetric] D_def [symmetric]
    by (simp add: push_bit_eq_mult)
  also have "((A * 64 + B) * 64 + C) * 64 + (D - 0x03C82080) = uint c"
    unfolding A_def B_def C_def D_def assms by (rule arith4) simp
  finally show ?thesis by simp
qed

section \<open>The table of trailing bytes\<close>

lemma trailing_table:
  "trailingBytesForUTF8 =
    replicate 192 0 @ replicate 32 1 @ replicate 16 2 @ replicate 8 3 @ replicate 4 4 @ replicate 4 5"
  unfolding trailingBytesForUTF8_def by code_simp

lemma length_tables:
  "length trailingBytesForUTF8 = 256" "length offsetsFromUTF8 = 6" "length firstByteMark = 7"
  by (simp_all add: trailing_table offsetsFromUTF8_def firstByteMark_def)

lemma trailing_nth:
  "n < 256 \<Longrightarrow> trailingBytesForUTF8 ! n =
    (if n < 192 then 0 else if n < 224 then 1 else if n < 240 then 2
     else if n < 248 then 3 else if n < 252 then 4 else 5)"
  by (auto simp: trailing_table nth_append)

lemma trailing_uint:
  fixes b :: byte
  shows "trailingBytesForUTF8 ! unat b =
    (if uint b < 192 then 0 else if uint b < 224 then 1 else if uint b < 240 then 2
     else if uint b < 248 then 3 else if uint b < 252 then 4 else 5)"
proof -
  have "unat b < 256" using unsigned_less [of b, where ?'a = nat] by simp
  moreover have c: "uint b < int n \<longleftrightarrow> unat b < n" for n
    by (simp only: uint_nat of_nat_less_iff)
  ultimately show ?thesis
    using c [of 192] c [of 224] c [of 240] c [of 248] c [of 252]
    by (simp add: trailing_nth)
qed

lemma trailing_le_5: "unat (trailingBytesForUTF8 ! unat (b::byte)) < 6"
  by (simp add: trailing_uint)

section \<open>The encoder, character by character\<close>

text \<open>
  With \<open>idx\<close> at the end of \<open>ret\<close>, as the loop keeps it, every store is in range and
  the loop appends \<open>char_bytes\<close> of each code point, or returns the error at the first
  code point that is not legal.
\<close>

lemma replicate_4: "replicate 4 x = [x, x, x, x]" "replicate 3 x = [x, x, x]"
  "replicate 2 x = [x, x]"
  by (simp_all add: eval_nat_numeral)

lemma write_bytes_char:
  assumes "lookupBytesToWrite ch = (n, None)"
  shows "write_bytes (ret @ replicate (nat n) 0) (int (length ret)) ch n = Some (ret @ char_bytes ch)"
proof -
  consider "n = 1" "ch < 0x80"
    | "n = 2" "\<not> ch < 0x80" "ch < 0x800"
    | "n = 3" "\<not> ch < 0x80" "\<not> ch < 0x800" "ch < 0x10000"
    | "n = 4" "\<not> ch < 0x80" "\<not> ch < 0x800" "\<not> ch < 0x10000"
    using assms by (auto simp: lookupBytesToWrite_def split: if_splits)
  then show ?thesis
  proof cases
    case 1
    then show ?thesis
      by (simp add: write_bytes_def case1_def store_def char_bytes_def lead_byte_def
          firstByteMark_def replicate_4)
  next
    case 2
    then show ?thesis
      by (simp add: write_bytes_def case1_def case2_def store_cont_def store_def char_bytes_def
          lead_byte_def cont_byte_def firstByteMark_def replicate_4 list_update_append nat_add_distrib)
  next
    case 3
    then show ?thesis
      by (simp add: write_bytes_def case1_def case2_def case3_def store_cont_def store_def
          char_bytes_def lead_byte_def cont_byte_def firstByteMark_def replicate_4
          list_update_append nat_add_distrib)
  next
    case 4
    then show ?thesis
      by (simp add: write_bytes_def case1_def case2_def case3_def case4_def store_cont_def
          store_def char_bytes_def lead_byte_def cont_byte_def firstByteMark_def replicate_4
          list_update_append nat_add_distrib)
  qed
qed

lemma legal_iff: "legal ch \<longleftrightarrow> \<not> (ch \<ge> UniSurHighStart \<and> ch \<le> UniSurLowEnd) \<and> snd (lookupBytesToWrite ch) = None"
  by (auto simp: legal_def surrogate_def UniSurHighStart_def UniSurLowEnd_def lookupBytesToWrite_def UniMaxLegalUTF32_def word_less_alt word_le_def)

lemma encode_loop_char:
  "encode_loop src ret (int (length ret)) =
     (if list_all legal src then Some (ret @ concat (map char_bytes src), None)
      else Some ([], Some ErrInvalidSource))"
proof (induction src arbitrary: ret)
  case Nil
  then show ?case by simp
next
  case (Cons ch src)
  show ?case
  proof (cases "legal ch")
    case False
    then show ?thesis
      by (cases "lookupBytesToWrite ch"; cases "snd (lookupBytesToWrite ch)"; cases "the (snd (lookupBytesToWrite ch))")
         (auto simp: legal_iff)
  next
    case True
    then obtain n where n: "lookupBytesToWrite ch = (n, None)"
      by (cases "lookupBytesToWrite ch") (auto simp: legal_iff)
    have len: "int (length (ret @ char_bytes ch)) = int (length ret) + n"
      using n by (auto simp: lookupBytesToWrite_def char_bytes_def split: if_splits)
    have ns: "\<not> (ch \<ge> UniSurHighStart \<and> ch \<le> UniSurLowEnd)"
      using True by (simp add: legal_iff)
    show ?thesis
      using Cons.IH [of "ret @ char_bytes ch"] True ns
      by (auto simp add: n write_bytes_char len simp del: length_append)
  qed
qed

section \<open>The decoder, character by character\<close>

text \<open>
  The decoder reads \<open>char_bytes c\<close> back as \<open>c\<close> and moves on to the next character; on
  any string, one iteration at a lead byte that has its trailing bytes either rejects
  the accumulated value or appends it.
\<close>

lemma legal_checks:
  "legal ch \<longleftrightarrow> \<not> (ch > UniMaxLegalUTF32 \<or> (ch \<ge> UniSurHighStart \<and> ch \<le> UniSurLowEnd))"
  by (auto simp: legal_def surrogate_def UniSurHighStart_def UniSurLowEnd_def UniMaxLegalUTF32_def word_less_alt word_le_def)

lemma decode_step:
  assumes "i < length src" and "trailingBytesForUTF8 ! unat (src ! i) = e"
    and "i + unat e < length src" and "read_char src i e = Some (i', ch)" and "legal ch"
  shows "decode_loop src i ret = decode_loop src (i' + 1) (ret @ [ch])"
  using assms by (subst decode_loop.simps) (auto simp: legal_checks)

lemma unat_byte_Suc:
  "unat (2::byte) = Suc (Suc 0)" "unat (3::byte) = Suc (Suc (Suc 0))"
  by simp_all

lemma read_char_0:
  "read_char (pre @ b1 # rest) (length pre) 0 = Some (length pre, ucast b1)"
  by (simp add: read_char_def offsetsFromUTF8_def)

lemma read_char_1:
  "read_char (pre @ b1 # b2 # rest) (length pre) 1 =
     Some (length pre + 1, push_bit 6 (0 + ucast b1) + (ucast b2 - 0x00003080))"
  by (simp add: read_char_def offsetsFromUTF8_def nth_append)

lemma read_char_2:
  "read_char (pre @ b1 # b2 # b3 # rest) (length pre) 2 =
     Some (length pre + 2, push_bit 6 (push_bit 6 (0 + ucast b1) + ucast b2) + (ucast b3 - 0x000E2080))"
  unfolding read_char_def unat_byte_Suc by (simp add: offsetsFromUTF8_def nth_append)

lemma read_char_3:
  "read_char (pre @ b1 # b2 # b3 # b4 # rest) (length pre) 3 =
     Some (length pre + 3,
       push_bit 6 (push_bit 6 (push_bit 6 (0 + ucast b1) + ucast b2) + ucast b3) + (ucast b4 - 0x03C82080))"
  unfolding read_char_def unat_byte_Suc by (simp add: offsetsFromUTF8_def nth_append)

lemma decode_char_bytes:
  assumes "legal c"
  shows "decode_loop (pre @ char_bytes c @ rest) (length pre) ret =
         decode_loop (pre @ char_bytes c @ rest) (length pre + length (char_bytes c)) (ret @ [c])"
proof -
  have lt: "c < 0x110000" using assms by (simp add: legal_def)
  consider "c < 0x80"
    | "\<not> c < 0x80" "c < 0x800"
    | "\<not> c < 0x80" "\<not> c < 0x800" "c < 0x10000"
    | "\<not> c < 0x80" "\<not> c < 0x800" "\<not> c < 0x10000"
    by blast
  then show ?thesis
  proof cases
    case 1
    define b1 where "b1 = lead_byte c 1"
    have cb: "char_bytes c = [b1]" using 1 by (simp add: char_bytes_def b1_def)
    have u1: "uint b1 = uint c" unfolding b1_def using 1 by (rule uint_lead1)
    have "uint c < 128" using 1 by (simp add: word_less_alt)
    then have t: "trailingBytesForUTF8 ! unat b1 = 0"
      using div64_nonneg [of c] by (simp add: trailing_uint u1)
    have v: "ucast b1 = c" using u1 by (rule word1)
    have "decode_loop (pre @ b1 # rest) (length pre) ret =
          decode_loop (pre @ b1 # rest) (length pre + 1) (ret @ [c])"
    proof (rule decode_step [where i' = "length pre" and e = 0])
      show "read_char (pre @ b1 # rest) (length pre) 0 = Some (length pre, c)"
        by (simp only: read_char_0 v)
      show "trailingBytesForUTF8 ! unat ((pre @ b1 # rest) ! length pre) = 0"
        by (simp add: t)
    qed (simp_all add: assms)
    moreover have "length pre + length [b1] = length pre + 1" by simp
    ultimately show ?thesis unfolding cb append_Cons append_Nil by (simp only:)
  next
    case 2
    define b1 b2 where "b1 = lead_byte (drop_bit 6 c) 2" and "b2 = cont_byte c"
    have cb: "char_bytes c = [b1, b2]" using 2 by (simp add: char_bytes_def b1_def b2_def)
    have u1: "uint b1 = 192 + uint c div 64" unfolding b1_def using 2(2) by (rule uint_lead2)
    have u2: "uint b2 = 128 + uint c mod 64" unfolding b2_def by (rule uint_cont_byte)
    have "uint c < 2048" using 2 by (simp add: word_less_alt)
    then have "uint c div 64 < 32" by simp
    then have t: "trailingBytesForUTF8 ! unat b1 = 1"
      using div64_nonneg [of c] by (simp add: trailing_uint u1)
    have v: "push_bit 6 (0 + ucast b1) + (ucast b2 - 0x00003080) = c"
      using u1 u2 by (rule word2)
    have "decode_loop (pre @ b1 # b2 # rest) (length pre) ret =
          decode_loop (pre @ b1 # b2 # rest) (length pre + 1 + 1) (ret @ [c])"
    proof (rule decode_step)
      show "read_char (pre @ b1 # b2 # rest) (length pre) 1 = Some (length pre + 1, c)"
        by (simp only: read_char_1 v)
      show "trailingBytesForUTF8 ! unat ((pre @ b1 # b2 # rest) ! length pre) = 1"
        by (simp add: t)
    qed (simp_all add: assms)
    moreover have "length pre + length [b1, b2] = length pre + 1 + 1" by simp
    ultimately show ?thesis unfolding cb append_Cons append_Nil by (simp only:)
  next
    case 3
    define b1 b2 b3 where "b1 = lead_byte (drop_bit 6 (drop_bit 6 c)) 3"
      and "b2 = cont_byte (drop_bit 6 c)" and "b3 = cont_byte c"
    have cb: "char_bytes c = [b1, b2, b3]"
      using 3 by (simp add: char_bytes_def b1_def b2_def b3_def)
    have u1: "uint b1 = 224 + uint c div 64 div 64" unfolding b1_def using 3(3) by (rule uint_lead3)
    have u2: "uint b2 = 128 + uint c div 64 mod 64"
      unfolding b2_def by (simp only: uint_cont_byte uint_drop6)
    have u3: "uint b3 = 128 + uint c mod 64" unfolding b3_def by (rule uint_cont_byte)
    have "uint c < 65536" using 3 by (simp add: word_less_alt)
    then have "uint c div 64 div 64 < 16" by simp
    then have t: "trailingBytesForUTF8 ! unat b1 = 2"
      using div64_nonneg [of c] by (simp add: trailing_uint u1)
    have v: "push_bit 6 (push_bit 6 (0 + ucast b1) + ucast b2) + (ucast b3 - 0x000E2080) = c"
      using u1 u2 u3 by (rule word3)
    have "decode_loop (pre @ b1 # b2 # b3 # rest) (length pre) ret =
          decode_loop (pre @ b1 # b2 # b3 # rest) (length pre + 2 + 1) (ret @ [c])"
    proof (rule decode_step)
      show "read_char (pre @ b1 # b2 # b3 # rest) (length pre) 2 = Some (length pre + 2, c)"
        by (simp only: read_char_2 v)
      show "trailingBytesForUTF8 ! unat ((pre @ b1 # b2 # b3 # rest) ! length pre) = 2"
        by (simp add: t)
    qed (simp_all add: assms)
    moreover have "length pre + length [b1, b2, b3] = length pre + 2 + 1" by simp
    ultimately show ?thesis unfolding cb append_Cons append_Nil by (simp only:)
  next
    case 4
    define b1 b2 b3 b4 where "b1 = lead_byte (drop_bit 6 (drop_bit 6 (drop_bit 6 c))) 4"
      and "b2 = cont_byte (drop_bit 6 (drop_bit 6 c))"
      and "b3 = cont_byte (drop_bit 6 c)" and "b4 = cont_byte c"
    have cb: "char_bytes c = [b1, b2, b3, b4]"
      using 4 by (simp add: char_bytes_def b1_def b2_def b3_def b4_def)
    have u1: "uint b1 = 240 + uint c div 64 div 64 div 64"
      unfolding b1_def using lt by (rule uint_lead4)
    have u2: "uint b2 = 128 + uint c div 64 div 64 mod 64"
      unfolding b2_def by (simp only: uint_cont_byte uint_drop6)
    have u3: "uint b3 = 128 + uint c div 64 mod 64"
      unfolding b3_def by (simp only: uint_cont_byte uint_drop6)
    have u4: "uint b4 = 128 + uint c mod 64" unfolding b4_def by (rule uint_cont_byte)
    have "uint c < 1114112" using lt by (simp add: word_less_alt)
    then have "uint c div 64 div 64 div 64 < 8" by simp
    then have t: "trailingBytesForUTF8 ! unat b1 = 3"
      using div64_nonneg [of c] by (simp add: trailing_uint u1)
    have v: "push_bit 6 (push_bit 6 (push_bit 6 (0 + ucast b1) + ucast b2) + ucast b3)
               + (ucast b4 - 0x03C82080) = c"
      using u1 u2 u3 u4 by (rule word4)
    have "decode_loop (pre @ b1 # b2 # b3 # b4 # rest) (length pre) ret =
          decode_loop (pre @ b1 # b2 # b3 # b4 # rest) (length pre + 3 + 1) (ret @ [c])"
    proof (rule decode_step)
      show "read_char (pre @ b1 # b2 # b3 # b4 # rest) (length pre) 3 = Some (length pre + 3, c)"
        by (simp only: read_char_3 v)
      show "trailingBytesForUTF8 ! unat ((pre @ b1 # b2 # b3 # b4 # rest) ! length pre) = 3"
        by (simp add: t)
    qed (simp_all add: assms)
    moreover have "length pre + length [b1, b2, b3, b4] = length pre + 3 + 1" by simp
    ultimately show ?thesis unfolding cb append_Cons append_Nil by (simp only:)
  qed
qed

lemma decode_concat:
  "list_all legal s \<Longrightarrow>
   decode_loop (pre @ concat (map char_bytes s)) (length pre) ret = Some (ret @ s, None)"
proof (induction s arbitrary: pre ret)
  case Nil
  then show ?case by (subst decode_loop.simps) simp
next
  case (Cons c s)
  then have c: "legal c" and s: "list_all legal s" by simp_all
  have "decode_loop (pre @ concat (map char_bytes (c # s))) (length pre) ret =
        decode_loop (pre @ char_bytes c @ concat (map char_bytes s)) (length pre) ret"
    by simp
  also have "\<dots> = decode_loop (pre @ char_bytes c @ concat (map char_bytes s))
       (length pre + length (char_bytes c)) (ret @ [c])"
    using c by (rule decode_char_bytes)
  also have "\<dots> = decode_loop ((pre @ char_bytes c) @ concat (map char_bytes s))
       (length (pre @ char_bytes c)) (ret @ [c])"
    by simp
  also have "\<dots> = Some ((ret @ [c]) @ s, None)"
    using s by (rule Cons.IH)
  finally show ?case by simp
qed

lemma read_trailing_Some:
  "i + k \<le> length src \<Longrightarrow> \<exists>ch'. read_trailing src k i ch = Some (i + k, ch')"
proof (induction k arbitrary: i ch)
  case 0
  then show ?case by simp
next
  case (Suc k)
  from Suc.prems have "Suc i + k \<le> length src" and "i < length src" by simp_all
  with Suc.IH [of "Suc i" "push_bit 6 (ch + ucast (src ! i))"] show ?case by simp
qed

lemma read_char_Some:
  assumes "i + unat e < length src" and "unat e < 6"
  shows "\<exists>ch. read_char src i e = Some (i + unat e, ch)"
proof -
  from assms(1) have "i + unat e \<le> length src" by simp
  from read_trailing_Some [OF this] obtain ch'
    where "read_trailing src (unat e) i 0 = Some (i + unat e, ch')" by blast
  then show ?thesis
    using assms by (simp add: read_char_def offsetsFromUTF8_def)
qed

lemma read_char_None:
  "length src \<le> i + unat e \<Longrightarrow> read_char src i e = None"
  by (auto simp: read_char_def split: option.splits dest: read_trailing_cursor)

lemma decode_loop_char:
  assumes "i < length src" and "i + unat (trailingBytesForUTF8 ! unat (src ! i)) < length src"
  shows "\<exists>ch. read_char src i (trailingBytesForUTF8 ! unat (src ! i)) =
            Some (i + unat (trailingBytesForUTF8 ! unat (src ! i)), ch) \<and>
          decode_loop src i ret =
            (if rejected ch then Some ([], Some ErrInvalidSource)
             else decode_loop src (i + unat (trailingBytesForUTF8 ! unat (src ! i)) + 1) (ret @ [ch]))"
proof -
  from read_char_Some [OF assms(2) trailing_le_5] obtain ch
    where ch: "read_char src i (trailingBytesForUTF8 ! unat (src ! i)) =
            Some (i + unat (trailingBytesForUTF8 ! unat (src ! i)), ch)" by blast
  show ?thesis
    using assms ch by (subst decode_loop.simps) (auto simp: rejected_def)
qed

lemma decode_loop_truncated:
  assumes "i < length src" and "length src \<le> i + unat (trailingBytesForUTF8 ! unat (src ! i))"
  shows "decode_loop src i ret = Some ([], Some ErrInvalidSource)"
  using assms by (subst decode_loop.simps) simp

lemma lead_at_reached:
  "lead_at src i \<Longrightarrow>
     ConvertUTF8toUTF32 src = Some ([], Some ErrInvalidSource) \<or>
     (\<exists>ret. ConvertUTF8toUTF32 src = decode_loop src i ret)"
proof (induction rule: lead_at.induct)
  case first
  then show ?case by (auto simp: ConvertUTF8toUTF32_def)
next
  case (step i)
  from decode_loop_char [OF step.hyps(2,3)] step.IH show ?case
    by (metis (full_types))
qed

lemma decode_loop_error_empty:
  "decode_loop src i ret = Some (r, Some e) \<Longrightarrow> r = []"
proof (induction src i ret rule: decode_loop.induct)
  case (1 src i ret)
  show ?case
  proof (cases "i < length src \<and> i + unat (trailingBytesForUTF8 ! unat (src ! i)) < length src")
    case True
    then have lt: "i < length src"
      and fit: "i + unat (trailingBytesForUTF8 ! unat (src ! i)) < length src" by simp_all
    from decode_loop_char [OF lt fit] obtain ch
      where ch: "read_char src i (trailingBytesForUTF8 ! unat (src ! i)) =
                   Some (i + unat (trailingBytesForUTF8 ! unat (src ! i)), ch)"
        and eq: "decode_loop src i ret =
                   (if rejected ch then Some ([], Some ErrInvalidSource)
                    else decode_loop src (i + unat (trailingBytesForUTF8 ! unat (src ! i)) + 1) (ret @ [ch]))"
      by blast
    show ?thesis
    proof (cases "rejected ch")
      case True
      with eq "1.prems" show ?thesis by simp
    next
      case False
      with eq "1.prems"
      have "decode_loop src (i + unat (trailingBytesForUTF8 ! unat (src ! i)) + 1) (ret @ [ch]) = Some (r, Some e)"
        by simp
      with "1.IH" [OF lt refl _ ch refl] fit False show ?thesis
        by (simp add: rejected_def)
    qed
  next
    case False
    with "1.prems" show ?thesis
      by (subst (asm) decode_loop.simps) (auto simp: Let_def split: if_splits)
  qed
qed

lemma decode_loop_total: "decode_loop src i ret \<noteq> None"
proof (induction src i ret rule: decode_loop.induct)
  case (1 src i ret)
  show ?case
  proof (cases "i < length src \<and> i + unat (trailingBytesForUTF8 ! unat (src ! i)) < length src")
    case True
    with decode_loop_char [of i src ret] "1.IH" show ?thesis
      by (auto simp: rejected_def)
  next
    case False
    then show ?thesis by (subst decode_loop.simps) (auto simp: Let_def)
  qed
qed

section \<open>The two converters as a whole\<close>

lemma encode_char:
  "ConvertUTF32toUTF8 s =
     (if list_all legal s then Some (concat (map char_bytes s), None)
      else Some ([], Some ErrInvalidSource))"
  using encode_loop_char [of s "[]"] by (simp add: ConvertUTF32toUTF8_def)

text \<open>Neither converter stops with an index out of range.\<close>

lemma ConvertUTF32toUTF8_total: "ConvertUTF32toUTF8 s \<noteq> None"
  by (simp add: encode_char)

lemma ConvertUTF8toUTF32_total: "ConvertUTF8toUTF32 src \<noteq> None"
  unfolding ConvertUTF8toUTF32_def by (rule decode_loop_total)

lemma length_char_bytes: "legal ch \<Longrightarrow> length (char_bytes ch) = utf8_len ch"
  by (simp add: char_bytes_def utf8_len_def legal_def word_less_alt word_le_def)

lemma length_concat_char_bytes:
  "list_all legal s \<Longrightarrow> length (concat (map char_bytes s)) = sum_list (map utf8_len s)"
  by (induction s) (simp_all add: length_char_bytes)

lemma utf8_len_le_4: "utf8_len ch \<le> 4"
  by (simp add: utf8_len_def)

lemma sum_utf8_len_le: "sum_list (map utf8_len s) \<le> 4 * length s"
proof (induction s)
  case Nil
  then show ?case by simp
next
  case (Cons ch s)
  with utf8_len_le_4 [of ch] show ?case by simp
qed

lemma char_bytes_shape:
  "(\<exists>b. char_bytes ch = [b] \<and> uint b < 128) \<or> (\<exists>b x bs. char_bytes ch = b # cont_byte x # bs)"
proof (cases "ch < 0x80")
  case True
  then have "uint ch < 128" by (simp add: word_less_alt)
  with True show ?thesis by (simp add: char_bytes_def uint_lead1)
next
  case False
  then show ?thesis by (auto simp: char_bytes_def)
qed

lemma concat_char_bytes_not_C3_41: "concat (map char_bytes s) \<noteq> [0xC3, 0x41]"
proof (cases s)
  case Nil
  then show ?thesis by simp
next
  case (Cons ch s')
  from char_bytes_shape [of ch] show ?thesis
  proof
    assume "\<exists>b. char_bytes ch = [b] \<and> uint b < 128"
    then obtain b where b: "char_bytes ch = [b]" "uint b < 128" by blast
    show ?thesis
    proof
      assume "concat (map char_bytes s) = [0xC3, 0x41]"
      with Cons b have "b = 0xC3" by simp
      with b(2) show False by simp
    qed
  next
    assume "\<exists>b x bs. char_bytes ch = b # cont_byte x # bs"
    then obtain b x bs where b: "char_bytes ch = b # cont_byte x # bs" by blast
    show ?thesis
    proof
      assume "concat (map char_bytes s) = [0xC3, 0x41]"
      with Cons b have "cont_byte x = 0x41" by simp
      then have "uint (cont_byte x) = 65" by simp
      then show False by (simp add: uint_cont_byte)
    qed
  qed
qed

lemma decode_loop_rejected:
  assumes "i < length src"
    and "read_char src i (trailingBytesForUTF8 ! unat (src ! i)) = Some (i', ch)"
    and "rejected ch"
  shows "decode_loop src i ret = Some ([], Some ErrInvalidSource)"
proof -
  have fit: "i + unat (trailingBytesForUTF8 ! unat (src ! i)) < length src"
  proof (rule ccontr)
    assume "\<not> ?thesis"
    then have "length src \<le> i + unat (trailingBytesForUTF8 ! unat (src ! i))" by simp
    from read_char_None [OF this] assms(2) show False by simp
  qed
  from decode_loop_char [OF assms(1) fit, of ret] assms(2,3) show ?thesis by auto
qed

lemma surrogate_rejected: "surrogate ch \<Longrightarrow> rejected ch"
  by (simp add: surrogate_def rejected_def UniSurHighStart_def UniSurLowEnd_def)

lemma ascii_legal: "ch < 0x80 \<Longrightarrow> legal ch"
  by (simp add: legal_def surrogate_def word_less_alt word_le_def)

lemma sum_utf8_len_ascii:
  "\<forall>ch \<in> set a. ch < 0x80 \<Longrightarrow> sum_list (map utf8_len a) = length a"
  by (induction a) (simp_all add: utf8_len_def)

section \<open>The claims of the specification\<close>

text \<open>
  Claim C1 (round trip). For every sequence \<open>s\<close> of legal code points (each below
  \<open>0x110000\<close> and outside \<open>[0xD800, 0xDFFF]\<close>), \<open>ConvertUTF32toUTF8 s\<close> returns some
  bytes with a nil error, and \<open>ConvertUTF8toUTF32\<close> of these bytes returns exactly \<open>s\<close>
  with a nil error.
\<close>

theorem roundtrip_legal:
  "list_all legal s \<Longrightarrow>
   \<exists>bs. ConvertUTF32toUTF8 s = Some (bs, None) \<and> ConvertUTF8toUTF32 bs = Some (s, None)"
  using decode_concat [of s "[]" "[]"]
  by (simp add: encode_char ConvertUTF8toUTF32_def)

theorem roundtrip_legal_witness:
  "list_all legal [0x41, 0xE9, 0x91D, 0xD7FF, 0xE000, 0x1230A, 0x10FFFF] \<and>
   (\<exists>bs. ConvertUTF32toUTF8 [0x41, 0xE9, 0x91D, 0xD7FF, 0xE000, 0x1230A, 0x10FFFF] = Some (bs, None) \<and>
     ConvertUTF8toUTF32 bs = Some ([0x41, 0xE9, 0x91D, 0xD7FF, 0xE000, 0x1230A, 0x10FFFF], None))"
proof -
  have h: "list_all legal [0x41, 0xE9, 0x91D, 0xD7FF, 0xE000, 0x1230A, 0x10FFFF]"
    by (simp add: legal_def surrogate_def)
  from roundtrip_legal [OF h] h show ?thesis by blast
qed

text \<open>
  Claim C2 (surrogates are rejected). If some code point of the input is in
  \<open>[0xD800, 0xDFFF]\<close>, \<open>ConvertUTF32toUTF8\<close> returns the error \<open>ErrInvalidSource\<close>. If at
  some character of a byte string (a lead byte at \<open>i\<close> with all its trailing bytes) the
  value the decoder accumulates, \<open>read_char\<close>, is in \<open>[0xD800, 0xDFFF]\<close>,
  \<open>ConvertUTF8toUTF32\<close> returns the error \<open>ErrInvalidSource\<close>.
\<close>

theorem surrogates_fail:
  "((\<exists>ch \<in> set s. surrogate ch) \<longrightarrow> ConvertUTF32toUTF8 s = Some ([], Some ErrInvalidSource)) \<and>
   (lead_at src i \<and> i < length src \<and>
    read_char src i (trailingBytesForUTF8 ! unat (src ! i)) = Some (i', ch') \<and> surrogate ch'
      \<longrightarrow> ConvertUTF8toUTF32 src = Some ([], Some ErrInvalidSource))"
proof (intro conjI impI)
  assume "\<exists>ch \<in> set s. surrogate ch"
  then have "\<not> list_all legal s" by (auto simp: list_all_iff legal_def)
  then show "ConvertUTF32toUTF8 s = Some ([], Some ErrInvalidSource)"
    by (simp add: encode_char)
next
  assume a: "lead_at src i \<and> i < length src \<and>
    read_char src i (trailingBytesForUTF8 ! unat (src ! i)) = Some (i', ch') \<and> surrogate ch'"
  then have "rejected ch'" by (simp add: surrogate_rejected)
  with a have "decode_loop src i ret = Some ([], Some ErrInvalidSource)" for ret
    by (simp add: decode_loop_rejected)
  with lead_at_reached [of src i] a
  show "ConvertUTF8toUTF32 src = Some ([], Some ErrInvalidSource)" by auto
qed

theorem surrogates_fail_witness:
  "(\<exists>ch \<in> set [0x41, 0xDABC, 0x42]. surrogate ch) \<and>
   ConvertUTF32toUTF8 [0x41, 0xDABC, 0x42] = Some ([], Some ErrInvalidSource) \<and>
   lead_at [0x41, 0xED, 0xA0, 0x80, 0x42] 1 \<and> (1::nat) < length [0x41, 0xED, 0xA0, 0x80, 0x42 :: byte] \<and>
   read_char [0x41, 0xED, 0xA0, 0x80, 0x42] 1 (trailingBytesForUTF8 ! unat ([0x41, 0xED, 0xA0, 0x80, 0x42 :: byte] ! 1))
     = Some (3, 0xD800) \<and> surrogate 0xD800 \<and>
   ConvertUTF8toUTF32 [0x41, 0xED, 0xA0, 0x80, 0x42] = Some ([], Some ErrInvalidSource)"
proof -
  have h1: "\<exists>ch \<in> set [0x41, 0xDABC, 0x42]. surrogate ch" by (simp add: surrogate_def)
  have "lead_at [0x41, 0xED, 0xA0, 0x80, 0x42] (0 + unat (trailingBytesForUTF8 ! unat ([0x41, 0xED, 0xA0, 0x80, 0x42 :: byte] ! 0)) + 1)"
    by (rule lead_at.step [OF lead_at.first]) (simp_all add: trailing_nth)
  then have h2: "lead_at [0x41, 0xED, 0xA0, 0x80, 0x42] 1" by (simp add: trailing_nth)
  have h3: "read_char [0x41, 0xED, 0xA0, 0x80, 0x42] 1 (trailingBytesForUTF8 ! unat ([0x41, 0xED, 0xA0, 0x80, 0x42 :: byte] ! 1))
     = Some (3, 0xD800)" by code_simp
  have h4: "surrogate 0xD800" by (simp add: surrogate_def)
  have h5: "(1::nat) < length [0x41, 0xED, 0xA0, 0x80, 0x42 :: byte]" by simp
  note t = surrogates_fail [of "[0x41, 0xDABC, 0x42]" "[0x41, 0xED, 0xA0, 0x80, 0x42]" 1 3 "0xD800"]
  from t h1 have e: "ConvertUTF32toUTF8 [0x41, 0xDABC, 0x42] = Some ([], Some ErrInvalidSource)"
    by blast
  from t h2 h3 h4 h5
  have d: "ConvertUTF8toUTF32 [0x41, 0xED, 0xA0, 0x80, 0x42] = Some ([], Some ErrInvalidSource)"
    by blast
  from h1 h2 h3 h4 h5 e d show ?thesis by blast
qed

text \<open>
  Claim C3 (largest code point). \<open>[0x10FFFF]\<close> encodes without error, to
  \<open>0xF4 0x8F 0xBF 0xBF\<close>, and these bytes decode to \<open>[0x10FFFF]\<close> again; an input with a
  code point \<open>0x110000\<close> or larger makes \<open>ConvertUTF32toUTF8\<close> return the error
  \<open>ErrInvalidSource\<close>.
\<close>

theorem max_value_boundary:
  "ConvertUTF32toUTF8 [0x10FFFF] = Some ([0xF4, 0x8F, 0xBF, 0xBF], None) \<and>
   ConvertUTF8toUTF32 [0xF4, 0x8F, 0xBF, 0xBF] = Some ([0x10FFFF], None) \<and>
   ((\<exists>ch \<in> set s. 0x110000 \<le> ch) \<longrightarrow> ConvertUTF32toUTF8 s = Some ([], Some ErrInvalidSource))"
proof (intro conjI impI)
  show "ConvertUTF32toUTF8 [0x10FFFF] = Some ([0xF4, 0x8F, 0xBF, 0xBF], None)" by code_simp
  show "ConvertUTF8toUTF32 [0xF4, 0x8F, 0xBF, 0xBF] = Some ([0x10FFFF], None)" by code_simp
next
  assume "\<exists>ch \<in> set s. 0x110000 \<le> ch"
  then obtain ch where "ch \<in> set s" and "0x110000 \<le> ch" by blast
  moreover from this have "\<not> legal ch" by (simp add: legal_def not_less)
  ultimately have "\<not> list_all legal s" by (auto simp: list_all_iff)
  then show "ConvertUTF32toUTF8 s = Some ([], Some ErrInvalidSource)"
    by (simp add: encode_char)
qed

theorem max_value_boundary_witness:
  "(\<exists>ch \<in> set [0x41, 0x110000 :: UTF32]. 0x110000 \<le> ch) \<and>
   ConvertUTF32toUTF8 [0x41, 0x110000] = Some ([], Some ErrInvalidSource)"
proof -
  have h: "\<exists>ch \<in> set [0x41, 0x110000 :: UTF32]. 0x110000 \<le> ch" by simp
  from max_value_boundary [of "[0x41, 0x110000]"] h show ?thesis by blast
qed

text \<open>
  Claim C4 (output length). When \<open>ConvertUTF32toUTF8\<close> returns a nil error, the number
  of bytes it returns is the sum of the byte lengths \<open>utf8_len\<close> of the code points
  (1 below \<open>0x80\<close>, 2 below \<open>0x800\<close>, 3 below \<open>0x10000\<close>, 4 up to \<open>0x10FFFF\<close>). In
  particular 11 ASCII code points give 11 bytes, U+00E9 gives 2 bytes, U+091D gives 3
  bytes and every code point of a supplementary plane gives 4 bytes.
\<close>

theorem output_length:
  "(ConvertUTF32toUTF8 s = Some (bs, None) \<longrightarrow> length bs = sum_list (map utf8_len s)) \<and>
   (length a = 11 \<and> (\<forall>ch \<in> set a. ch < 0x80) \<longrightarrow>
      (\<exists>bs. ConvertUTF32toUTF8 a = Some (bs, None) \<and> length bs = 11)) \<and>
   ConvertUTF32toUTF8 [0xE9] = Some ([0xC3, 0xA9], None) \<and>
   ConvertUTF32toUTF8 [0x91D] = Some ([0xE0, 0xA4, 0x9D], None) \<and>
   (0x10000 \<le> p \<and> p \<le> 0x10FFFF \<longrightarrow>
      (\<exists>bs. ConvertUTF32toUTF8 [p] = Some (bs, None) \<and> length bs = 4))"
proof (intro conjI impI)
  assume "ConvertUTF32toUTF8 s = Some (bs, None)"
  then have "list_all legal s" and "bs = concat (map char_bytes s)"
    by (simp_all add: encode_char split: if_splits)
  then show "length bs = sum_list (map utf8_len s)"
    by (simp add: length_concat_char_bytes)
next
  assume a: "length a = 11 \<and> (\<forall>ch \<in> set a. ch < 0x80)"
  then have l: "list_all legal a" by (simp add: list_all_iff ascii_legal)
  from a have "sum_list (map utf8_len a) = length a" by (simp add: sum_utf8_len_ascii)
  with l a show "\<exists>bs. ConvertUTF32toUTF8 a = Some (bs, None) \<and> length bs = 11"
    by (simp add: encode_char length_concat_char_bytes)
next
  show "ConvertUTF32toUTF8 [0xE9] = Some ([0xC3, 0xA9], None)" by code_simp
  show "ConvertUTF32toUTF8 [0x91D] = Some ([0xE0, 0xA4, 0x9D], None)" by code_simp
next
  assume p: "0x10000 \<le> p \<and> p \<le> 0x10FFFF"
  then have "legal p" and "utf8_len p = 4"
    by (simp_all add: legal_def surrogate_def utf8_len_def word_less_alt word_le_def)
  then show "\<exists>bs. ConvertUTF32toUTF8 [p] = Some (bs, None) \<and> length bs = 4"
    by (simp add: encode_char length_char_bytes)
qed

theorem output_length_witness:
  "ConvertUTF32toUTF8 [0x68, 0xE9, 0x91D, 0x1230A] =
     Some ([0x68, 0xC3, 0xA9, 0xE0, 0xA4, 0x9D, 0xF0, 0x92, 0x8C, 0x8A], None) \<and>
   length [0x68, 0xC3, 0xA9, 0xE0, 0xA4, 0x9D, 0xF0, 0x92, 0x8C, 0x8A :: byte] =
     sum_list (map utf8_len [0x68, 0xE9, 0x91D, 0x1230A]) \<and>
   length [0x68, 0x65, 0x6C, 0x6C, 0x6F, 0x20, 0x77, 0x6F, 0x72, 0x6C, 0x64 :: UTF32] = 11 \<and>
   list_all (\<lambda>ch. ch < 0x80) [0x68, 0x65, 0x6C, 0x6C, 0x6F, 0x20, 0x77, 0x6F, 0x72, 0x6C, 0x64 :: UTF32] \<and>
   (\<exists>bs. ConvertUTF32toUTF8 [0x68, 0x65, 0x6C, 0x6C, 0x6F, 0x20, 0x77, 0x6F, 0x72, 0x6C, 0x64] = Some (bs, None) \<and>
      length bs = 11) \<and>
   (0x10000 :: UTF32) \<le> 0x1230A \<and> (0x1230A :: UTF32) \<le> 0x10FFFF \<and>
   (\<exists>bs. ConvertUTF32toUTF8 [0x1230A] = Some (bs, None) \<and> length bs = 4)"
proof -
  have h1: "ConvertUTF32toUTF8 [0x68, 0xE9, 0x91D, 0x1230A] =
     Some ([0x68, 0xC3, 0xA9, 0xE0, 0xA4, 0x9D, 0xF0, 0x92, 0x8C, 0x8A], None)" by code_simp
  have h2: "length [0x68, 0x65, 0x6C, 0x6C, 0x6F, 0x20, 0x77, 0x6F, 0x72, 0x6C, 0x64 :: UTF32] = 11 \<and>
   (\<forall>ch \<in> set [0x68, 0x65, 0x6C, 0x6C, 0x6F, 0x20, 0x77, 0x6F, 0x72, 0x6C, 0x64 :: UTF32]. ch < 0x80)"
    by simp
  have h3: "(0x10000 :: UTF32) \<le> 0x1230A \<and> (0x1230A :: UTF32) \<le> 0x10FFFF" by simp
  note t = output_length [of "[0x68, 0xE9, 0x91D, 0x1230A]"
      "[0x68, 0xC3, 0xA9, 0xE0, 0xA4, 0x9D, 0xF0, 0x92, 0x8C, 0x8A]"
      "[0x68, 0x65, 0x6C, 0x6C, 0x6F, 0x20, 0x77, 0x6F, 0x72, 0x6C, 0x64]" "0x1230A"]
  have h4: "list_all (\<lambda>ch. ch < 0x80) [0x68, 0x65, 0x6C, 0x6C, 0x6F, 0x20, 0x77, 0x6F, 0x72, 0x6C, 0x64 :: UTF32]"
    by simp
  from t h1 h2 h3 h4 show ?thesis by blast
qed

text \<open>
  Claim C5 (truncation). If a lead byte at \<open>i\<close> claims \<open>k\<close> trailing bytes and fewer
  than \<open>k\<close> bytes remain after it, \<open>ConvertUTF8toUTF32\<close> returns the error
  \<open>ErrInvalidSource\<close>. In particular a string that is only the lead byte of a three-byte
  sequence, alone or followed by one more byte, is rejected.
\<close>

theorem truncation_fails:
  "(lead_at src i \<and> i < length src \<and>
      length src - (i + 1) < unat (trailingBytesForUTF8 ! unat (src ! i))
    \<longrightarrow> ConvertUTF8toUTF32 src = Some ([], Some ErrInvalidSource)) \<and>
   (trailingBytesForUTF8 ! unat b = 2 \<longrightarrow>
      ConvertUTF8toUTF32 [b] = Some ([], Some ErrInvalidSource) \<and>
      ConvertUTF8toUTF32 [b, b'] = Some ([], Some ErrInvalidSource))"
proof -
  have gen: "ConvertUTF8toUTF32 src = Some ([], Some ErrInvalidSource)"
    if "lead_at src i" and "i < length src"
      and "length src - (i + 1) < unat (trailingBytesForUTF8 ! unat (src ! i))"
    for src i
  proof -
    from that(2,3) have "length src \<le> i + unat (trailingBytesForUTF8 ! unat (src ! i))"
      by simp
    with that(2) have "decode_loop src i ret = Some ([], Some ErrInvalidSource)" for ret
      by (rule decode_loop_truncated)
    with lead_at_reached [OF that(1)] show ?thesis by auto
  qed
  have one: "ConvertUTF8toUTF32 [b] = Some ([], Some ErrInvalidSource)"
    if "trailingBytesForUTF8 ! unat b = 2"
    by (rule gen [of _ 0]) (simp_all add: lead_at.first that)
  have two: "ConvertUTF8toUTF32 [b, b'] = Some ([], Some ErrInvalidSource)"
    if "trailingBytesForUTF8 ! unat b = 2"
    by (rule gen [of _ 0]) (simp_all add: lead_at.first that)
  from gen [of src i] one two show ?thesis by blast
qed

theorem truncation_fails_witness:
  "lead_at [0x41, 0xF0, 0x90, 0x80] 1 \<and> (1::nat) < length [0x41, 0xF0, 0x90, 0x80 :: byte] \<and>
   length [0x41, 0xF0, 0x90, 0x80 :: byte] - (1 + 1)
     < unat (trailingBytesForUTF8 ! unat ([0x41, 0xF0, 0x90, 0x80 :: byte] ! 1)) \<and>
   ConvertUTF8toUTF32 [0x41, 0xF0, 0x90, 0x80] = Some ([], Some ErrInvalidSource) \<and>
   trailingBytesForUTF8 ! unat (0xE0 :: byte) = 2 \<and>
   ConvertUTF8toUTF32 [0xE0] = Some ([], Some ErrInvalidSource) \<and>
   ConvertUTF8toUTF32 [0xE0, 0xA4] = Some ([], Some ErrInvalidSource)"
proof -
  have "lead_at [0x41, 0xF0, 0x90, 0x80]
     (0 + unat (trailingBytesForUTF8 ! unat ([0x41, 0xF0, 0x90, 0x80 :: byte] ! 0)) + 1)"
    by (rule lead_at.step [OF lead_at.first]) (simp_all add: trailing_nth)
  then have h1: "lead_at [0x41, 0xF0, 0x90, 0x80] 1" by (simp add: trailing_nth)
  have h2: "(1::nat) < length [0x41, 0xF0, 0x90, 0x80 :: byte]" by simp
  have h3: "length [0x41, 0xF0, 0x90, 0x80 :: byte] - (1 + 1)
     < unat (trailingBytesForUTF8 ! unat ([0x41, 0xF0, 0x90, 0x80 :: byte] ! 1))"
    by (simp add: trailing_nth)
  have h4: "trailingBytesForUTF8 ! unat (0xE0 :: byte) = 2" by (simp add: trailing_nth)
  note t = truncation_fails [of "[0x41, 0xF0, 0x90, 0x80]" 1 "0xE0" "0xA4"]
  from t h1 h2 h3 h4 show ?thesis by blast
qed

text \<open>
  Claim C6 (no partial result). Whenever \<open>ConvertUTF32toUTF8\<close> returns an error, the
  string it returns is empty, and whenever \<open>ConvertUTF8toUTF32\<close> returns an error, it
  returns no code points, however many characters were converted before.
\<close>

theorem failure_is_atomic:
  "(ConvertUTF32toUTF8 s = Some (bs, Some e) \<longrightarrow> bs = []) \<and>
   (ConvertUTF8toUTF32 src = Some (cps, Some e') \<longrightarrow> cps = [])"
proof (intro conjI impI)
  assume "ConvertUTF32toUTF8 s = Some (bs, Some e)"
  then show "bs = []" by (simp add: encode_char split: if_splits)
next
  assume "ConvertUTF8toUTF32 src = Some (cps, Some e')"
  then show "cps = []"
    unfolding ConvertUTF8toUTF32_def by (rule decode_loop_error_empty)
qed

theorem failure_is_atomic_witness:
  "ConvertUTF32toUTF8 [0x41, 0x42, 0xD800] = Some ([], Some ErrInvalidSource) \<and>
   ConvertUTF8toUTF32 [0x41, 0x42, 0xE0, 0xA4] = Some ([], Some ErrInvalidSource)"
proof -
  have h1: "ConvertUTF32toUTF8 [0x41, 0x42, 0xD800] = Some (fst (the (ConvertUTF32toUTF8 [0x41, 0x42, 0xD800])), Some ErrInvalidSource)"
    by code_simp
  have h2: "ConvertUTF8toUTF32 [0x41, 0x42, 0xE0, 0xA4] = Some (fst (the (ConvertUTF8toUTF32 [0x41, 0x42, 0xE0, 0xA4])), Some ErrInvalidSource)"
    by code_simp
  from failure_is_atomic [of "[0x41, 0x42, 0xD800]" "fst (the (ConvertUTF32toUTF8 [0x41, 0x42, 0xD800]))" ErrInvalidSource
      "[0x41, 0x42, 0xE0, 0xA4]" "fst (the (ConvertUTF8toUTF32 [0x41, 0x42, 0xE0, 0xA4]))" ErrInvalidSource] h1 h2
  show ?thesis by simp
qed

text \<open>
  Claim C7 (continuation bytes are not validated). In \<open>0xC3 0x41\<close> a two-byte lead
  byte is followed by an ASCII byte, whose two high bits are not \<open>10\<close>. The decoder
  returns the code point \<open>0x81\<close> with a nil error, although \<open>0x81\<close> encodes as
  \<open>0xC2 0x81\<close> and no sequence of code points at all encodes as \<open>0xC3 0x41\<close>.
\<close>

theorem continuation_not_validated:
  "ConvertUTF8toUTF32 [0xC3, 0x41] = Some ([0x81], None) \<and>
   (0x41 :: byte) AND 0xC0 \<noteq> 0x80 \<and>
   ConvertUTF32toUTF8 [0x81] = Some ([0xC2, 0x81], None) \<and>
   (\<forall>s. ConvertUTF32toUTF8 s \<noteq> Some ([0xC3, 0x41], None))"
proof -
  have d: "ConvertUTF8toUTF32 [0xC3, 0x41] = Some ([0x81], None)" by code_simp
  have m: "(0x41 :: byte) AND 0xC0 \<noteq> 0x80" by simp
  have e: "ConvertUTF32toUTF8 [0x81] = Some ([0xC2, 0x81], None)" by code_simp
  have n: "\<forall>s. ConvertUTF32toUTF8 s \<noteq> Some ([0xC3, 0x41], None)"
    by (simp add: encode_char concat_char_bytes_not_C3_41)
  from d m e n show ?thesis by blast
qed

text \<open>
  Claim C8 (never more than four bytes). \<open>lookupBytesToWrite\<close> never returns a length
  above 4, so the entries of \<open>firstByteMark\<close> for five and six bytes are never used, and
  when \<open>ConvertUTF32toUTF8\<close> returns a nil error its output has at most 4 bytes for each
  code point of the input.
\<close>

theorem at_most_four_bytes:
  "(\<forall>ch. fst (lookupBytesToWrite ch) \<le> 4) \<and>
   (ConvertUTF32toUTF8 s = Some (bs, None) \<longrightarrow> length bs \<le> 4 * length s)"
proof (intro conjI impI allI)
  fix ch show "fst (lookupBytesToWrite ch) \<le> 4" by (simp add: lookupBytesToWrite_def)
next
  assume "ConvertUTF32toUTF8 s = Some (bs, None)"
  then have "list_all legal s" and "bs = concat (map char_bytes s)"
    by (simp_all add: encode_char split: if_splits)
  then have "length bs = sum_list (map utf8_len s)"
    by (simp add: length_concat_char_bytes)
  with sum_utf8_len_le [of s] show "length bs \<le> 4 * length s" by simp
qed

theorem at_most_four_bytes_witness:
  "ConvertUTF32toUTF8 [0x10FFFF, 0x41, 0x10000] = Some ([0xF4, 0x8F, 0xBF, 0xBF, 0x41, 0xF0, 0x90, 0x80, 0x80], None) \<and>
   length [0xF4, 0x8F, 0xBF, 0xBF, 0x41, 0xF0, 0x90, 0x80, 0x80 :: byte] \<le> 4 * length [0x10FFFF, 0x41, 0x10000 :: UTF32]"
proof -
  have h: "ConvertUTF32toUTF8 [0x10FFFF, 0x41, 0x10000] = Some ([0xF4, 0x8F, 0xBF, 0xBF, 0x41, 0xF0, 0x90, 0x80, 0x80], None)"
    by code_simp
  from at_most_four_bytes [of "[0x10FFFF, 0x41, 0x10000]" "[0xF4, 0x8F, 0xBF, 0xBF, 0x41, 0xF0, 0x90, 0x80, 0x80]"] h
  show ?thesis by blast
qed

text \<open>
  Claim C9 (empty inputs). \<open>ConvertUTF32toUTF8\<close> of the empty sequence returns the empty
  string and a nil error; \<open>ConvertUTF8toUTF32\<close> of the empty string returns the empty
  sequence and a nil error.
\<close>

theorem empty_inputs:
  "ConvertUTF32toUTF8 [] = Some ([], None) \<and> ConvertUTF8toUTF32 [] = Some ([], None)"
  by (simp add: ConvertUTF32toUTF8_def ConvertUTF8toUTF32_def decode_loop.simps)

text \<open>
  Claim C10 (decoding then encoding is not the identity). The overlong two-byte string
  \<open>0xC0 0x80\<close> decodes without error to the code point 0, which encodes as the single
  byte \<open>0x00\<close>; so there are bytes \<open>b\<close> that decode to some \<open>cps\<close> whose encoding is
  not \<open>b\<close>.
\<close>

theorem overlong_not_roundtrip:
  "ConvertUTF8toUTF32 [0xC0, 0x80] = Some ([0], None) \<and>
   ConvertUTF32toUTF8 [0] = Some ([0x00], None) \<and>
   (\<exists>b cps. ConvertUTF8toUTF32 b = Some (cps, None) \<and> ConvertUTF32toUTF8 cps \<noteq> Some (b, None))"
proof -
  have d: "ConvertUTF8toUTF32 [0xC0, 0x80] = Some ([0], None)" by code_simp
  have e: "ConvertUTF32toUTF8 [0] = Some ([0x00], None)" by code_simp
  from d e have "ConvertUTF8toUTF32 [0xC0, 0x80] = Some ([0], None) \<and>
    ConvertUTF32toUTF8 [0] \<noteq> Some ([0xC0, 0x80], None)" by simp
  then have "\<exists>b cps. ConvertUTF8toUTF32 b = Some (cps, None) \<and> ConvertUTF32toUTF8 cps \<noteq> Some (b, None)"
    by blast
  with d e show ?thesis by blast
qed

end
